theory Spec2Isabelle
  imports Main "HOL-Library.Multiset"
begin

section \<open>Python and numpy values\<close>

text \<open>
  The notebook \<^verbatim>\<open>DSA5204_permutation.ipynb\<close> defines three helpers:
  \<^verbatim>\<open>get_shuffle_indices\<close>, \<^verbatim>\<open>shuffle_image\<close> and \<^verbatim>\<open>magic\<close>.
  They raise no exception of their own; every failure is one raised by Python, numpy or
  Keras, and is a value of \<open>py_error\<close> here.
\<close>

datatype py_error = ValueError | IndexError

text \<open>
  A numpy array is its shape and its elements in row-major order. Reshaping, adding an axis
  and squeezing change the shape only.
\<close>

record 'a ndarray =
  shape :: "nat list"
  data :: "'a list"

definition wf_array :: "'a ndarray \<Rightarrow> bool" where
  "wf_array a \<longleftrightarrow> length (data a) = prod_list (shape a)"

definition ndim :: "'a ndarray \<Rightarrow> nat" where
  "ndim a = length (shape a)"

section \<open>The permutation generator\<close>

text \<open>
  \<^verbatim>\<open>
  def get_shuffle_indices(n):
      shuf_idx = np.arange(784)
      for _ in range(n):
          i, j = np.random.choice(784, size=(2, ), replace=False)
          shuf_idx[i], shuf_idx[j] = shuf_idx[j], shuf_idx[i]
      return shuf_idx
  \<close>
  The source fixes the literal 784 (one 28 by 28 image). The literal is the parameter
  \<open>sz\<close> of \<open>get_shuffle_indices_sized\<close>, and \<open>get_shuffle_indices\<close> is the instance at 784.
  The global random state is the sequence of pairs that the successive calls of
  \<^verbatim>\<open>np.random.choice\<close> return: \<open>rnd k\<close> is the pair drawn by call number \<open>k\<close>.
\<close>

type_synonym random_source = "nat \<Rightarrow> nat \<times> nat"

definition arange :: "int \<Rightarrow> int list" where
  "arange sz = map int [0..<nat sz]"

text \<open>
  \<^verbatim>\<open>np.random.choice(a, size=(2,), replace=False)\<close> raises ValueError when \<open>a\<close> is not
  positive, and when the population is smaller than the sample; otherwise it returns two
  distinct members of \<open>[0, a)\<close>, which is \<open>valid_draw\<close>.
\<close>

definition choice2 :: "int \<Rightarrow> nat \<times> nat \<Rightarrow> py_error + nat \<times> nat" where
  "choice2 a draw = (if a \<le> 0 then Inl ValueError else if a < 2 then Inl ValueError else Inr draw)"

definition valid_draw :: "int \<Rightarrow> nat \<times> nat \<Rightarrow> bool" where
  "valid_draw a d \<longleftrightarrow> fst d \<noteq> snd d \<and> int (fst d) < a \<and> int (snd d) < a"

text \<open>
  The tuple assignment reads both entries first and then writes them; an index outside the
  array raises IndexError.
\<close>

definition swap_entries :: "nat \<Rightarrow> nat \<Rightarrow> int list \<Rightarrow> py_error + int list" where
  "swap_entries i j xs =
     (if i < length xs \<and> j < length xs then Inr (xs[i := xs ! j, j := xs ! i])
      else Inl IndexError)"

fun swap_loop :: "nat \<Rightarrow> int \<Rightarrow> random_source \<Rightarrow> int list \<Rightarrow> py_error + int list" where
  "swap_loop 0 a rnd xs = Inr xs"
| "swap_loop (Suc k) a rnd xs =
     (case choice2 a (rnd 0) of
        Inl e \<Rightarrow> Inl e
      | Inr (i, j) \<Rightarrow>
          (case swap_entries i j xs of
             Inl e \<Rightarrow> Inl e
           | Inr ys \<Rightarrow> swap_loop k a (\<lambda>t. rnd (Suc t)) ys))"

definition get_shuffle_indices_sized :: "int \<Rightarrow> int \<Rightarrow> random_source \<Rightarrow> py_error + int list" where
  "get_shuffle_indices_sized sz n rnd = swap_loop (nat n) sz rnd (arange sz)"

definition get_shuffle_indices :: "int \<Rightarrow> random_source \<Rightarrow> py_error + int list" where
  "get_shuffle_indices n rnd = get_shuffle_indices_sized 784 n rnd"

text \<open>The draws that a run of \<open>n\<close> iterations consumes all keep the contract of the library.\<close>

definition valid_draws :: "int \<Rightarrow> int \<Rightarrow> random_source \<Rightarrow> bool" where
  "valid_draws sz n rnd \<longleftrightarrow> list_all (\<lambda>k. valid_draw sz (rnd k)) [0..<nat n]"

definition is_permutation :: "nat \<Rightarrow> int list \<Rightarrow> bool" where
  "is_permutation n p \<longleftrightarrow> mset p = mset (arange (int n))"

section \<open>Array operations used by the notebook\<close>

text \<open>\<^verbatim>\<open>image[None, :, :]\<close> puts an axis of length one in front.\<close>

definition expand_dims0 :: "'a ndarray \<Rightarrow> 'a ndarray" where
  "expand_dims0 a = a\<lparr>shape := 1 # shape a\<rparr>"

text \<open>
  \<^verbatim>\<open>reshape\<close> with at most one negative (unknown) dimension, as numpy resolves it: the
  unknown one is the total size divided by the product of the known ones, and the call
  raises ValueError when that product is zero or does not divide the size, when two
  dimensions are unknown, and when no dimension is unknown and the sizes differ.
\<close>

definition fix_unknown_dimension :: "int list \<Rightarrow> nat \<Rightarrow> py_error + nat list" where
  "fix_unknown_dimension newshape s_original =
     (let s_known = prod_list (map nat (filter (\<lambda>d. 0 \<le> d) newshape));
          unknowns = length (filter (\<lambda>d. d < 0) newshape)
      in if 1 < unknowns then Inl ValueError
         else if unknowns = 1 then
           (if s_known = 0 \<or> s_original mod s_known \<noteq> 0 then Inl ValueError
            else Inr (map (\<lambda>d. if d < 0 then s_original div s_known else nat d) newshape))
         else if s_original \<noteq> s_known then Inl ValueError
         else Inr (map nat newshape))"

definition reshape :: "'a ndarray \<Rightarrow> int list \<Rightarrow> py_error + 'a ndarray" where
  "reshape a newshape =
     (case fix_unknown_dimension newshape (prod_list (shape a)) of
        Inl e \<Rightarrow> Inl e
      | Inr sh \<Rightarrow> Inr (a\<lparr>shape := sh\<rparr>))"

text \<open>\<^verbatim>\<open>squeeze()\<close> drops every axis of length one.\<close>

definition squeeze :: "'a ndarray \<Rightarrow> 'a ndarray" where
  "squeeze a = a\<lparr>shape := filter (\<lambda>d. d \<noteq> 1) (shape a)\<rparr>"

text \<open>
  Indexing an axis of length \<open>n\<close> with an integer sequence: an index \<open>k\<close> is accepted when
  \<open>-n \<le> k < n\<close>, a negative one counts from the end, any other raises IndexError. The
  result is a fresh array. \<open>take_axis outer l inner\<close> gathers along an axis of length \<open>l\<close>
  that has \<open>outer\<close> blocks before it and \<open>inner\<close> elements under each of its entries.
\<close>

definition index_ok :: "nat \<Rightarrow> int \<Rightarrow> bool" where
  "index_ok n k \<longleftrightarrow> - int n \<le> k \<and> k < int n"

definition wrap_index :: "nat \<Rightarrow> int \<Rightarrow> nat" where
  "wrap_index n k = nat (if k < 0 then k + int n else k)"

definition take_axis :: "nat \<Rightarrow> nat \<Rightarrow> nat \<Rightarrow> 'a list \<Rightarrow> int list \<Rightarrow> 'a list" where
  "take_axis outer l inner d idx =
     concat (map (\<lambda>r. concat (map (\<lambda>k.
       map (\<lambda>e. d ! ((r * l + wrap_index l k) * inner + e)) [0..<inner]) idx)) [0..<outer])"

text \<open>\<^verbatim>\<open>image[:, shuf_idx]\<close>: needs two axes at least.\<close>

definition take_cols :: "'a ndarray \<Rightarrow> int list \<Rightarrow> py_error + 'a ndarray" where
  "take_cols a idx =
     (case shape a of
        n # l # rest \<Rightarrow>
          if list_all (index_ok l) idx
          then Inr \<lparr>shape = n # length idx # rest,
                    data = take_axis n l (prod_list rest) (data a) idx\<rparr>
          else Inl IndexError
      | _ \<Rightarrow> Inl IndexError)"

text \<open>\<^verbatim>\<open>W[shuf_idx, :]\<close>: needs two axes at least.\<close>

definition take_rows :: "'a ndarray \<Rightarrow> int list \<Rightarrow> py_error + 'a ndarray" where
  "take_rows a idx =
     (case shape a of
        l # m # rest \<Rightarrow>
          if list_all (index_ok l) idx
          then Inr \<lparr>shape = length idx # m # rest,
                    data = take_axis 1 l (prod_list (m # rest)) (data a) idx\<rparr>
          else Inl IndexError
      | _ \<Rightarrow> Inl IndexError)"

section \<open>The image permuter\<close>

text \<open>
  \<^verbatim>\<open>
  def shuffle_image(image, shuf_idx):
      if image.ndim == 2:
          image = image[None, :, :]
      image = image.reshape(image.shape[0], -1)
      image = image[:, shuf_idx]
      return image.reshape(-1, 28, 28).squeeze()
  \<close>
  The source fixes the output to 28 by 28. The two literals are the parameters \<open>h\<close> and
  \<open>w\<close> of \<open>shuffle_image_hw\<close>, and \<open>shuffle_image\<close> is the instance at 28 and 28.
  \<^verbatim>\<open>image.shape[0]\<close> of an array without axes raises IndexError.
\<close>

definition shuffle_image_hw ::
  "nat \<Rightarrow> nat \<Rightarrow> 'a ndarray \<Rightarrow> int list \<Rightarrow> py_error + 'a ndarray" where
  "shuffle_image_hw h w img shuf_idx =
     (let img1 = (if ndim img = 2 then expand_dims0 img else img)
      in case shape img1 of
           [] \<Rightarrow> Inl IndexError
         | n0 # _ \<Rightarrow>
             (case reshape img1 [int n0, - 1] of
                Inl e \<Rightarrow> Inl e
              | Inr img2 \<Rightarrow>
                  (case take_cols img2 shuf_idx of
                     Inl e \<Rightarrow> Inl e
                   | Inr img3 \<Rightarrow>
                       (case reshape img3 [- 1, int h, int w] of
                          Inl e \<Rightarrow> Inl e
                        | Inr img4 \<Rightarrow> Inr (squeeze img4)))))"

definition shuffle_image :: "'a ndarray \<Rightarrow> int list \<Rightarrow> py_error + 'a ndarray" where
  "shuffle_image img shuf_idx = shuffle_image_hw 28 28 img shuf_idx"

text \<open>
  The inverse of a permutation \<open>p\<close>, as \<^verbatim>\<open>np.argsort(p)\<close> gives it: entry \<open>v\<close> is the
  position at which \<open>p\<close> holds \<open>v\<close>.
\<close>

fun position_of :: "int \<Rightarrow> int list \<Rightarrow> nat" where
  "position_of v [] = 0"
| "position_of v (x # xs) = (if x = v then 0 else Suc (position_of v xs))"

definition inverse_permutation :: "int list \<Rightarrow> int list" where
  "inverse_permutation p = map (\<lambda>v. int (position_of (int v) p)) [0..<length p]"

section \<open>The image permuter over a store of buffers\<close>

text \<open>
  To speak about mutation, arrays are views into a store of buffers: the address of a
  buffer is its position in the store. Adding an axis, reshaping and squeezing return a view
  of the same buffer; indexing with an integer sequence copies into a new buffer. No
  statement of \<^verbatim>\<open>shuffle_image\<close> assigns to an element.
\<close>

record view =
  vshape :: "nat list"
  vbuf :: nat

type_synonym 'a store = "'a list list"

definition read_view :: "'a store \<Rightarrow> view \<Rightarrow> 'a ndarray" where
  "read_view s v = \<lparr>shape = vshape v, data = s ! vbuf v\<rparr>"

definition reshape_view :: "view \<Rightarrow> int list \<Rightarrow> py_error + view" where
  "reshape_view v newshape =
     (case fix_unknown_dimension newshape (prod_list (vshape v)) of
        Inl e \<Rightarrow> Inl e
      | Inr sh \<Rightarrow> Inr (v\<lparr>vshape := sh\<rparr>))"

definition take_cols_st :: "'a store \<Rightarrow> view \<Rightarrow> int list \<Rightarrow> (py_error + view) \<times> 'a store" where
  "take_cols_st s v idx =
     (case vshape v of
        n # l # rest \<Rightarrow>
          if list_all (index_ok l) idx
          then (Inr \<lparr>vshape = n # length idx # rest, vbuf = length s\<rparr>,
                s @ [take_axis n l (prod_list rest) (s ! vbuf v) idx])
          else (Inl IndexError, s)
      | _ \<Rightarrow> (Inl IndexError, s))"

definition shuffle_image_st ::
  "'a store \<Rightarrow> view \<Rightarrow> int list \<Rightarrow> (py_error + view) \<times> 'a store" where
  "shuffle_image_st s img shuf_idx =
     (let img1 = (if length (vshape img) = 2 then img\<lparr>vshape := 1 # vshape img\<rparr>
                    else img)
      in case vshape img1 of
           [] \<Rightarrow> (Inl IndexError, s)
         | n0 # _ \<Rightarrow>
             (case reshape_view img1 [int n0, - 1] of
                Inl e \<Rightarrow> (Inl e, s)
              | Inr img2 \<Rightarrow>
                  (case take_cols_st s img2 shuf_idx of
                     (Inl e, s') \<Rightarrow> (Inl e, s')
                   | (Inr img3, s') \<Rightarrow>
                       (case reshape_view img3 [- 1, 28, 28] of
                          Inl e \<Rightarrow> (Inl e, s')
                        | Inr img4 \<Rightarrow>
                            (Inr (img4\<lparr>vshape := filter (\<lambda>d. d \<noteq> 1) (vshape img4)\<rparr>),
                             s')))))"

section \<open>The weight realigner\<close>

text \<open>
  \<^verbatim>\<open>
  def magic(model):
      W, b, w, c = model.get_weights()
      W_shuf = W[shuf_idx, :]
      model.set_weights([W_shuf, b, w, c])
  \<close>
  \<open>shuf_idx\<close> is a global of the notebook and a parameter here. The model is the list of
  its weight arrays. Unpacking a list that has not four members raises ValueError.
  \<^verbatim>\<open>set_weights\<close> of Keras raises ValueError when the number of arrays or the shape of an
  array differs from the model's own, before it assigns anything.
\<close>

record 'a keras_model =
  weights :: "'a ndarray list"

definition get_weights :: "'a keras_model \<Rightarrow> 'a ndarray list" where
  "get_weights model = weights model"

definition set_weights :: "'a keras_model \<Rightarrow> 'a ndarray list \<Rightarrow> py_error + 'a keras_model" where
  "set_weights model ws =
     (if length ws \<noteq> length (weights model) then Inl ValueError
      else if map shape ws \<noteq> map shape (weights model) then Inl ValueError
      else Inr (model\<lparr>weights := ws\<rparr>))"

definition magic :: "'a keras_model \<Rightarrow> int list \<Rightarrow> py_error + 'a keras_model" where
  "magic model shuf_idx =
     (case get_weights model of
        [W, b, w, c] \<Rightarrow>
          (case take_rows W shuf_idx of
             Inl e \<Rightarrow> Inl e
           | Inr W_shuf \<Rightarrow> set_weights model [W_shuf, b, w, c])
      | _ \<Rightarrow> Inl ValueError)"

text \<open>
  What the first dense layer computes from a flattened image before its bias and its
  activation: the kernel of shape \<open>[d, h]\<close> transposed, times the image; entry \<open>u\<close> is the
  sum over the pixels \<open>i\<close> of \<open>K[i, u] * x[i]\<close>.
\<close>

definition kernel_T_dot :: "'a::comm_semiring_0 ndarray \<Rightarrow> 'a list \<Rightarrow> 'a list" where
  "kernel_T_dot K x =
     map (\<lambda>u. \<Sum>i\<leftarrow>[0..<shape K ! 0]. data K ! (i * (shape K ! 1) + u) * x ! i)
       [0..<shape K ! 1]"

section \<open>Notions the properties are stated with\<close>

text \<open>Permuting a batch and then permuting the result with the inverse permutation.\<close>

definition permute_then_unpermute :: "'a ndarray \<Rightarrow> int list \<Rightarrow> py_error + 'a ndarray" where
  "permute_then_unpermute B p =
     (case shuffle_image B p of
        Inl e \<Rightarrow> Inl e
      | Inr B1 \<Rightarrow> shuffle_image B1 (inverse_permutation p))"

text \<open>
  What the notebook does with a permutation: \<^verbatim>\<open>magic(model)\<close> realigns the kernel in the
  model, \<^verbatim>\<open>shuffle_image\<close> permutes the image, and the first layer of the realigned model
  is applied to the flattened permuted image.
\<close>

definition realigned_preactivation ::
  "'a::comm_semiring_0 keras_model \<Rightarrow> 'a ndarray \<Rightarrow> int list \<Rightarrow> py_error + 'a list" where
  "realigned_preactivation model x p =
     (case magic model p of
        Inl e \<Rightarrow> Inl e
      | Inr model' \<Rightarrow>
          (case shuffle_image x p of
             Inl e \<Rightarrow> Inl e
           | Inr x' \<Rightarrow> Inr (kernel_T_dot (hd (get_weights model')) (data x'))))"

text \<open>
  The sign of a sequence of distinct integers: plus one when the number of pairs that stand
  in the wrong order is even, minus one when it is odd.
\<close>

fun inversions :: "int list \<Rightarrow> nat" where
  "inversions [] = 0"
| "inversions (x # xs) = length (filter (\<lambda>y. y < x) xs) + inversions xs"

definition perm_sign :: "int list \<Rightarrow> int" where
  "perm_sign p = (- 1) ^ inversions p"

text \<open>One exchange of the entries at the two positions of a draw.\<close>

definition swap_positions :: "int list \<Rightarrow> nat \<times> nat \<Rightarrow> int list" where
  "swap_positions xs d = xs[fst d := xs ! snd d, snd d := xs ! fst d]"

text \<open>The identity sequence with the entries at two positions exchanged.\<close>

definition transposition :: "nat \<Rightarrow> nat \<Rightarrow> nat \<Rightarrow> int list" where
  "transposition n a b = (arange (int n))[a := int b, b := int a]"

section \<open>Properties of the generator\<close>

lemma length_arange: "length (arange sz) = nat sz"
  by (simp add: arange_def)

lemma valid_draws_all: "valid_draws sz n rnd \<longleftrightarrow> (\<forall>k<nat n. valid_draw sz (rnd k))"
  by (auto simp: valid_draws_def list_all_iff)

lemma swap_loop_mset:
  "(\<forall>t<k. valid_draw a (rnd t)) \<Longrightarrow> int (length xs) = a \<Longrightarrow>
   \<exists>ys. swap_loop k a rnd xs = Inr ys \<and> mset ys = mset xs"
proof (induction k arbitrary: rnd xs)
  case 0
  then show ?case by simp
next
  case (Suc k)
  obtain i j where d: "rnd 0 = (i, j)" by (cases "rnd 0")
  from Suc.prems(1) have v: "valid_draw a (rnd 0)" by simp
  with d Suc.prems(2) have ij: "i < length xs" "j < length xs" "i \<noteq> j"
    by (auto simp: valid_draw_def)
  then have a2: "\<not> a < 2" using Suc.prems(2) by auto
  let ?ys = "xs[i := xs ! j, j := xs ! i]"
  have m: "mset ?ys = mset xs" using ij by (simp add: mset_swap)
  have "\<forall>t<k. valid_draw a (rnd (Suc t))" using Suc.prems(1) by auto
  moreover have "int (length ?ys) = a" using Suc.prems(2) by simp
  ultimately obtain zs where z: "swap_loop k a (\<lambda>t. rnd (Suc t)) ?ys = Inr zs" "mset zs = mset ?ys"
    using Suc.IH[of "\<lambda>t. rnd (Suc t)" ?ys] by blast
  show ?case using d a2 ij z m by (simp add: choice2_def swap_entries_def)
qed

lemma generator_mset:
  assumes "valid_draws sz n rnd"
  shows "\<exists>p. get_shuffle_indices_sized sz n rnd = Inr p \<and> mset p = mset (arange sz)"
proof (cases "0 \<le> sz")
  case True
  then have "int (length (arange sz)) = sz" by (simp add: length_arange)
  with assms show ?thesis
    unfolding get_shuffle_indices_sized_def valid_draws_all
    by (rule swap_loop_mset)
next
  case False
  then have "\<not> valid_draw sz (rnd 0)" by (auto simp: valid_draw_def)
  moreover have "0 < nat n \<Longrightarrow> valid_draw sz (rnd 0)"
    using assms unfolding valid_draws_all by blast
  ultimately have "nat n = 0" by (cases "nat n") auto
  then show ?thesis by (simp add: get_shuffle_indices_sized_def)
qed

lemma set_arange: "set (arange sz) = {0..<sz}"
proof -
  have "int ` {0..<nat sz} = {0..<sz}"
  proof (intro set_eqI iffI)
    fix x assume "x \<in> {0..<sz}"
    then have "x = int (nat x)" "nat x \<in> {0..<nat sz}" by auto
    then show "x \<in> int ` {0..<nat sz}" by (rule image_eqI)
  qed auto
  then show ?thesis by (simp add: arange_def)
qed

lemma distinct_arange: "distinct (arange sz)"
  by (simp add: arange_def distinct_map inj_on_def)

lemma mset_arange_props:
  assumes "mset p = mset (arange sz)"
  shows "length p = nat sz" "distinct p" "set p = {0..<sz}"
proof -
  show "length p = nat sz" using mset_eq_length[OF assms] by (simp add: length_arange)
  show "distinct p" using mset_eq_imp_distinct_iff[OF assms] by (simp add: distinct_arange)
  show "set p = {0..<sz}" using mset_eq_setD[OF assms] by (simp add: set_arange)
qed

text \<open>
  C2. For every size above zero and every swap count from zero on, the generator returns a
  sequence of that length in which each integer of \<open>[0, size)\<close> appears exactly once,
  whatever pairs of distinct indices the swaps drew.
\<close>

theorem generator_bijection:
  assumes "0 < sz" and "0 \<le> n" and "valid_draws sz n rnd"
  shows "\<exists>p. get_shuffle_indices_sized sz n rnd = Inr p \<and> length p = nat sz
            \<and> distinct p \<and> set p = {0..<sz}"
proof -
  from generator_mset[OF assms(3)] obtain p
    where "get_shuffle_indices_sized sz n rnd = Inr p" "mset p = mset (arange sz)" by blast
  then show ?thesis using mset_arange_props[of p sz] by blast
qed

theorem generator_bijection_witness:
  "(0::int) < 4 \<and> (0::int) \<le> 1 \<and> valid_draws 4 1 (\<lambda>_. (0, 1))
   \<and> get_shuffle_indices_sized 4 1 (\<lambda>_. (0, 1)) = Inr [1, 0, 2, 3]
   \<and> (\<exists>p. get_shuffle_indices_sized 4 1 (\<lambda>_. (0, 1)) = Inr p \<and> length p = nat 4
            \<and> distinct p \<and> set p = {0..<4})"
proof -
  have v: "valid_draws 4 1 (\<lambda>_. (0, 1))"
    by (simp add: valid_draws_def valid_draw_def)
  have e: "get_shuffle_indices_sized 4 1 (\<lambda>_. (0, 1)) = Inr [1, 0, 2, 3]"
    by (simp add: get_shuffle_indices_sized_def arange_def choice2_def swap_entries_def
        numeral_eq_Suc upt_rec)
  show ?thesis using generator_bijection[of 4 1 "\<lambda>_. (0, 1)"] v e by simp
qed

text \<open>The same for the generator of the source itself, whose size is 784.\<close>

lemma get_shuffle_indices_bijection:
  assumes "valid_draws 784 n rnd"
  shows "\<exists>p. get_shuffle_indices n rnd = Inr p \<and> length p = 784
            \<and> distinct p \<and> set p = {0..<784}"
proof -
  from generator_mset[OF assms] obtain p
    where "get_shuffle_indices_sized 784 n rnd = Inr p" "mset p = mset (arange 784)" by blast
  then show ?thesis using mset_arange_props[of p 784]
    by (simp add: get_shuffle_indices_def)
qed

section \<open>Reshaping and gathering\<close>


lemma fix_unknown_rows:
  "fix_unknown_dimension [int n0, - 1] s =
     (if n0 = 0 \<or> s mod n0 \<noteq> 0 then Inl ValueError else Inr [n0, s div n0])"
  by (simp add: fix_unknown_dimension_def)

lemma fix_unknown_images:
  "fix_unknown_dimension [- 1, int h, int w] s =
     (if h * w = 0 \<or> s mod (h * w) \<noteq> 0 then Inl ValueError else Inr [s div (h * w), h, w])"
  by (simp add: fix_unknown_dimension_def)

lemma upt_block: "[0..<Suc n * L] = [0..<n * L] @ map (\<lambda>j. j + n * L) [0..<L]"
proof -
  have "[0..<n * L + L] = [0..<n * L] @ [n * L..<n * L + L]"
    by (rule upt_add_eq_append) simp
  moreover have "[n * L..<n * L + L] = map (\<lambda>j. j + n * L) [0..<L]"
    by (simp only: map_add_upt add.commute[of L])
  ultimately show ?thesis by (simp only: mult_Suc add.commute[of L])
qed

lemma concat_rows_flat:
  "concat (map (\<lambda>k. map (f k) [0..<L]) xs) =
   map (\<lambda>t. f (xs ! (t div L)) (t mod L)) [0..<length xs * L]"
proof (induction xs rule: rev_induct)
  case Nil
  then show ?case by simp
next
  case (snoc x xs)
  let ?n = "length xs"
  have a: "map (\<lambda>t. f ((xs @ [x]) ! (t div L)) (t mod L)) [0..<?n * L] =
           map (\<lambda>t. f (xs ! (t div L)) (t mod L)) [0..<?n * L]"
  proof (rule map_cong[OF refl])
    fix t assume "t \<in> set [0..<?n * L]"
    then have "t < ?n * L" by simp
    then have "t div L < ?n" by (simp add: less_mult_imp_div_less)
    then show "f ((xs @ [x]) ! (t div L)) (t mod L) = f (xs ! (t div L)) (t mod L)"
      by (simp add: nth_append)
  qed
  have b: "map (\<lambda>t. f ((xs @ [x]) ! (t div L)) (t mod L)) (map (\<lambda>j. j + ?n * L) [0..<L]) =
           map (f x) [0..<L]"
    by (simp add: o_def cong: map_cong)
  have "concat (map (\<lambda>k. map (f k) [0..<L]) (xs @ [x])) =
        map (\<lambda>t. f (xs ! (t div L)) (t mod L)) [0..<?n * L] @ map (f x) [0..<L]"
    using snoc.IH by simp
  also have "\<dots> = map (\<lambda>t. f ((xs @ [x]) ! (t div L)) (t mod L)) ([0..<?n * L] @ map (\<lambda>j. j + ?n * L) [0..<L])"
    unfolding map_append a b ..
  also have "\<dots> = map (\<lambda>t. f ((xs @ [x]) ! (t div L)) (t mod L)) [0..<length (xs @ [x]) * L]"
    by (simp only: upt_block length_append_singleton)
  finally show ?case .
qed

lemma take_axis_flat:
  "take_axis outer l (Suc 0) d idx =
   map (\<lambda>t. d ! ((t div length idx) * l + wrap_index l (idx ! (t mod length idx))))
     [0..<outer * length idx]"
proof -
  have inner: "concat (map (\<lambda>k. map (\<lambda>e. d ! ((r * l + wrap_index l k) * Suc 0 + e)) [0..<Suc 0]) idx) =
        map (\<lambda>j. d ! (r * l + wrap_index l (idx ! j))) [0..<length idx]" for r
  proof -
    have "concat (map (\<lambda>k. map (\<lambda>e. d ! ((r * l + wrap_index l k) * Suc 0 + e)) [0..<Suc 0]) idx) =
          map (\<lambda>k. d ! (r * l + wrap_index l k)) idx"
      by simp
    also have "\<dots> = map (\<lambda>j. d ! (r * l + wrap_index l (idx ! j))) [0..<length idx]"
      by (rule nth_equalityI) simp_all
    finally show ?thesis .
  qed
  have "take_axis outer l (Suc 0) d idx =
        concat (map (\<lambda>r. map (\<lambda>j. d ! (r * l + wrap_index l (idx ! j))) [0..<length idx]) [0..<outer])"
    unfolding take_axis_def inner ..
  also have "\<dots> = map (\<lambda>t. d ! (([0..<outer] ! (t div length idx)) * l + wrap_index l (idx ! (t mod length idx))))
     [0..<length [0..<outer] * length idx]"
    by (rule concat_rows_flat[of "\<lambda>r j. d ! (r * l + wrap_index l (idx ! j))" "length idx" "[0..<outer]"])
  also have "\<dots> = map (\<lambda>t. d ! ((t div length idx) * l + wrap_index l (idx ! (t mod length idx))))
     [0..<outer * length idx]"
    by (simp add: less_mult_imp_div_less)
  finally show ?thesis .
qed

lemma take_axis_rows_flat:
  "take_axis (Suc 0) l inner d idx =
   map (\<lambda>t. d ! (wrap_index l (idx ! (t div inner)) * inner + t mod inner))
     [0..<length idx * inner]"
proof -
  have "take_axis (Suc 0) l inner d idx =
        concat (map (\<lambda>k. map (\<lambda>e. d ! (wrap_index l k * inner + e)) [0..<inner]) idx)"
    unfolding take_axis_def by simp
  also have "\<dots> = map (\<lambda>t. d ! (wrap_index l (idx ! (t div inner)) * inner + t mod inner))
     [0..<length idx * inner]"
    by (rule concat_rows_flat[of "\<lambda>k e. d ! (wrap_index l k * inner + e)" inner idx])
  finally show ?thesis .
qed

lemma reshape_rows:
  "reshape a [int n0, - 1] =
     (if n0 = 0 \<or> prod_list (shape a) mod n0 \<noteq> 0 then Inl ValueError
      else Inr (a\<lparr>shape := [n0, prod_list (shape a) div n0]\<rparr>))"
  by (simp add: reshape_def fix_unknown_rows)

lemma reshape_images:
  "reshape a [- 1, int h, int w] =
     (if h * w = 0 \<or> prod_list (shape a) mod (h * w) \<noteq> 0 then Inl ValueError
      else Inr (a\<lparr>shape := [prod_list (shape a) div (h * w), h, w]\<rparr>))"
  by (simp add: reshape_def fix_unknown_images)

lemma take_cols_2d:
  "take_cols \<lparr>shape = [n, l], data = d\<rparr> idx =
     (if list_all (index_ok l) idx
      then Inr \<lparr>shape = [n, length idx], data = take_axis n l 1 d idx\<rparr>
      else Inl IndexError)"
  by (simp add: take_cols_def)

lemma shuffle_image_hw_batch:
  assumes "shape img = [n, a, b]"
  shows "shuffle_image_hw h w img idx =
     (if n = 0 then Inl ValueError
      else if \<not> list_all (index_ok (a * b)) idx then Inl IndexError
      else if h * w = 0 \<or> (n * length idx) mod (h * w) \<noteq> 0 then Inl ValueError
      else Inr \<lparr>shape = filter (\<lambda>d. d \<noteq> 1) [(n * length idx) div (h * w), h, w],
                data = take_axis n (a * b) 1 (data img) idx\<rparr>)"
proof (cases "n = 0")
  case True
  have "reshape img [0, - 1] = Inl ValueError"
    using reshape_rows[of img 0] by simp
  then show ?thesis using True assms
    by (simp add: shuffle_image_hw_def ndim_def)
next
  case False
  have r: "reshape img [int n, - 1] = Inr \<lparr>shape = [n, a * b], data = data img\<rparr>"
    using False assms by (simp add: reshape_rows)
  show ?thesis
  proof (cases "list_all (index_ok (a * b)) idx")
    case ok: True
    have t: "take_cols \<lparr>shape = [n, a * b], data = data img\<rparr> idx =
             Inr \<lparr>shape = [n, length idx], data = take_axis n (a * b) 1 (data img) idx\<rparr>"
      using ok by (simp add: take_cols_2d)
    show ?thesis using False ok assms
      by (simp add: shuffle_image_hw_def ndim_def r t reshape_images squeeze_def)
  next
    case bad: False
    have t: "take_cols \<lparr>shape = [n, a * b], data = data img\<rparr> idx = Inl IndexError"
      using bad by (simp add: take_cols_2d)
    show ?thesis using False bad assms
      by (simp add: shuffle_image_hw_def ndim_def r t)
  qed
qed

lemma shuffle_image_hw_single:
  assumes "shape img = [a, b]"
  shows "shuffle_image_hw h w img idx = shuffle_image_hw h w (img\<lparr>shape := [1, a, b]\<rparr>) idx"
  using assms by (simp add: shuffle_image_hw_def ndim_def expand_dims0_def)

lemma wrap_index_less: "index_ok l k \<Longrightarrow> 0 < l \<Longrightarrow> wrap_index l k < l"
  by (auto simp: index_ok_def wrap_index_def)

lemma take_axis_replicate:
  assumes "list_all (index_ok l) idx"
  shows "take_axis n l (Suc 0) (replicate (n * l) c) idx = replicate (n * length idx) c"
proof -
  let ?m = "length idx"
  have "take_axis n l (Suc 0) (replicate (n * l) c) idx =
        map (\<lambda>t. replicate (n * l) c ! ((t div ?m) * l + wrap_index l (idx ! (t mod ?m)))) [0..<n * ?m]"
    by (rule take_axis_flat)
  also have "\<dots> = map (\<lambda>t. c) [0..<n * ?m]"
  proof (rule map_cong[OF refl])
    fix t assume "t \<in> set [0..<n * ?m]"
    then have t: "t < n * ?m" by simp
    then have m0: "0 < ?m" by (cases ?m) auto
    have r: "t div ?m < n" using t by (simp add: less_mult_imp_div_less)
    have "idx ! (t mod ?m) \<in> set idx" using m0 by simp
    then have ok: "index_ok l (idx ! (t mod ?m))" using assms by (simp add: list_all_iff)
    then have l0: "0 < l" by (auto simp: index_ok_def)
    have w: "wrap_index l (idx ! (t mod ?m)) < l" by (rule wrap_index_less[OF ok l0])
    have "(t div ?m) * l + wrap_index l (idx ! (t mod ?m)) < (t div ?m) * l + l" using w by simp
    also have "\<dots> = Suc (t div ?m) * l" by simp
    also have "\<dots> \<le> n * l" using r by (intro mult_le_mono1) simp
    finally show "replicate (n * l) c ! ((t div ?m) * l + wrap_index l (idx ! (t mod ?m))) = c"
      by simp
  qed
  also have "\<dots> = replicate (n * ?m) c" by (simp add: map_replicate_const)
  finally show ?thesis .
qed

lemma arange_index_ok: "k \<le> int l \<Longrightarrow> list_all (index_ok l) (arange k)"
  by (auto simp: list_all_iff arange_def index_ok_def)

section \<open>The identity, the edge cases and the two by two scenario\<close>


lemma take_axis_one_row:
  "take_axis (Suc 0) l (Suc 0) d idx = map (\<lambda>k. d ! wrap_index l k) idx"
  by (simp add: take_axis_def)

lemma is_permutation_props:
  assumes "is_permutation n p"
  shows "length p = n" "distinct p" "set p = {0..<int n}" "list_all (index_ok n) p"
    "\<And>k. k \<in> set p \<Longrightarrow> wrap_index n k = nat k"
proof -
  from assms have m: "mset p = mset (arange (int n))" by (simp add: is_permutation_def)
  show "length p = n" using mset_arange_props(1)[OF m] by simp
  show "distinct p" by (rule mset_arange_props(2)[OF m])
  show s: "set p = {0..<int n}" by (rule mset_arange_props(3)[OF m])
  show "list_all (index_ok n) p" using s by (auto simp: list_all_iff index_ok_def)
  show "\<And>k. k \<in> set p \<Longrightarrow> wrap_index n k = nat k" using s by (auto simp: wrap_index_def)
qed

lemma is_permutation_arange: "is_permutation n (arange (int n))"
  by (simp add: is_permutation_def)

text \<open>
  C7. With a swap count of zero the generator returns the identity sequence
  \<open>[0, 1, ..., size - 1]\<close>; no swap touches it. The source's own generator, whose size is
  784, is the second half.
\<close>

theorem generator_zero_swaps_identity:
  "get_shuffle_indices_sized sz 0 rnd = Inr (map int [0..<nat sz])
   \<and> get_shuffle_indices 0 rnd = Inr (map int [0..<784])"
  by (simp add: get_shuffle_indices_def get_shuffle_indices_sized_def arange_def)

text \<open>
  C3, as the code has it. The reordering of \<open>[1, 2, 3, 4]\<close> by \<open>[2, 0, 3, 1]\<close> is
  \<open>[3, 1, 4, 2]\<close>, and a permuter whose output shape is 2 by 2 returns \<open>[[3, 1], [4, 2]]\<close>.
  The permuter of the source reshapes to 28 by 28, and raises ValueError on this input.
\<close>

theorem shuffle_image_2x2_scenario:
  "shuffle_image_hw 2 2 \<lparr>shape = [2, 2], data = [1, 2, 3, 4 :: int]\<rparr> [2, 0, 3, 1]
     = Inr \<lparr>shape = [2, 2], data = [3, 1, 4, 2]\<rparr>"
  by (simp add: shuffle_image_hw_single shuffle_image_hw_batch index_ok_def take_axis_one_row
      wrap_index_def)

theorem shuffle_image_2x2_counterexample:
  "shuffle_image \<lparr>shape = [2, 2], data = [1, 2, 3, 4 :: int]\<rparr> [2, 0, 3, 1] = Inl ValueError
   \<and> shuffle_image \<lparr>shape = [2, 2], data = [1, 2, 3, 4 :: int]\<rparr> [2, 0, 3, 1]
       \<noteq> Inr \<lparr>shape = [2, 2], data = [3, 1, 4, 2]\<rparr>"
  by (simp add: shuffle_image_def shuffle_image_hw_single shuffle_image_hw_batch index_ok_def)

text \<open>
  C10, as the code has it. A batch of exactly one 28 by 28 image given with its batch axis,
  of shape \<open>[1, 28, 28]\<close>, comes back as one image of shape \<open>[28, 28]\<close>: the final squeeze
  drops the batch axis. Pixel \<open>i\<close> of the result is pixel \<open>shuf_idx[i]\<close> of the input. For
  another height and width the result is not of shape \<open>[H, W]\<close>: the last reshape is to 28
  by 28 whatever the input was, and raises ValueError when the pixels do not fill such
  images.
\<close>

theorem shuffle_image_single_batch_squeezed:
  assumes "shape img = [1, 28, 28]" and "is_permutation 784 shuf_idx"
  shows "shuffle_image img shuf_idx =
           Inr \<lparr>shape = [28, 28], data = map (\<lambda>k. data img ! nat k) shuf_idx\<rparr>"
proof -
  note p = is_permutation_props[OF assms(2)]
  have "map (\<lambda>k. data img ! wrap_index 784 k) shuf_idx = map (\<lambda>k. data img ! nat k) shuf_idx"
    using p(5) by (simp cong: map_cong)
  then show ?thesis using assms(1) p(1) p(4)
    by (simp add: shuffle_image_def shuffle_image_hw_batch take_axis_one_row)
qed

theorem shuffle_image_single_batch_squeezed_witness:
  "shape \<lparr>shape = [1, 28, 28], data = replicate 784 (0::int)\<rparr> = [1, 28, 28]
   \<and> is_permutation 784 (arange 784)
   \<and> shuffle_image \<lparr>shape = [1, 28, 28], data = replicate 784 (0::int)\<rparr> (arange 784) =
       Inr \<lparr>shape = [28, 28],
            data = map (\<lambda>k. replicate 784 (0::int) ! nat k) (arange 784)\<rparr>"
  using shuffle_image_single_batch_squeezed[of "\<lparr>shape = [1, 28, 28], data = replicate 784 (0::int)\<rparr>" "arange 784"]
    is_permutation_arange[of 784]
  by simp

theorem shuffle_image_single_batch_counterexample:
  "shuffle_image \<lparr>shape = [1, 2, 2], data = [1, 2, 3, 4 :: int]\<rparr> [2, 0, 3, 1] = Inl ValueError
   \<and> shuffle_image \<lparr>shape = [1, 14, 56], data = replicate 784 (0::int)\<rparr> (arange 784)
       = Inr \<lparr>shape = [28, 28], data = replicate 784 0\<rparr>
   \<and> [28, 28] \<noteq> [14, 56 :: nat]"
proof -
  have a: "shuffle_image \<lparr>shape = [1, 2, 2], data = [1, 2, 3, 4 :: int]\<rparr> [2, 0, 3, 1]
           = Inl ValueError"
    by (simp add: shuffle_image_def shuffle_image_hw_batch index_ok_def)
  have t: "take_axis 1 784 (Suc 0) (replicate 784 (0::int)) (arange 784) = replicate 784 0"
    using take_axis_replicate[of 784 "arange 784" 1 "0::int"] arange_index_ok[of 784 784]
    by (simp add: length_arange)
  have b: "shuffle_image \<lparr>shape = [1, 14, 56], data = replicate 784 (0::int)\<rparr> (arange 784)
       = Inr \<lparr>shape = [28, 28], data = replicate 784 0\<rparr>"
    using t arange_index_ok[of 784 784]
    by (simp add: shuffle_image_def shuffle_image_hw_batch length_arange)
  show ?thesis using a b by simp
qed

section \<open>The round trip through a permutation and its inverse\<close>


lemma position_of_props:
  "v \<in> set p \<Longrightarrow> position_of v p < length p \<and> p ! position_of v p = v"
  by (induction p) auto

lemma length_inverse_permutation: "length (inverse_permutation p) = length p"
  by (simp add: inverse_permutation_def)

lemma inverse_permutation_nth:
  assumes "is_permutation n p" and "j < n"
  shows "index_ok n (inverse_permutation p ! j)"
    and "p ! wrap_index n (inverse_permutation p ! j) = int j"
    and "wrap_index n (inverse_permutation p ! j) < n"
proof -
  note pp = is_permutation_props[OF assms(1)]
  have "int j \<in> set p" using pp(3) assms(2) by simp
  from position_of_props[OF this] pp(1)
  have c: "position_of (int j) p < n" "p ! position_of (int j) p = int j" by simp_all
  have q: "inverse_permutation p ! j = int (position_of (int j) p)"
    using assms(2) pp(1) by (simp add: inverse_permutation_def)
  show "index_ok n (inverse_permutation p ! j)" using c(1) by (simp add: q index_ok_def)
  show "p ! wrap_index n (inverse_permutation p ! j) = int j"
    using c by (simp add: q wrap_index_def)
  show "wrap_index n (inverse_permutation p ! j) < n" using c(1) by (simp add: q wrap_index_def)
qed

lemma inverse_permutation_ok:
  assumes "is_permutation n p"
  shows "list_all (index_ok n) (inverse_permutation p)"
proof -
  have "length (inverse_permutation p) = n"
    using is_permutation_props(1)[OF assms] by (simp add: length_inverse_permutation)
  then show ?thesis
    using inverse_permutation_nth(1)[OF assms]
    by (auto simp: list_all_length)
qed

lemma gather_round_trip:
  assumes "is_permutation L p" and "length d = n * L"
  shows "take_axis n L 1 (take_axis n L 1 d p) (inverse_permutation p) = d"
proof -
  note pp = is_permutation_props[OF assms(1)]
  let ?q = "inverse_permutation p"
  have lq: "length ?q = L" using pp(1) by (simp add: length_inverse_permutation)
  let ?d' = "take_axis n L 1 d p"
  have d': "?d' = map (\<lambda>s. d ! ((s div L) * L + wrap_index L (p ! (s mod L)))) [0..<n * L]"
    using take_axis_flat[of n L d p] pp(1) by simp
  have "take_axis n L 1 ?d' ?q =
        map (\<lambda>t. ?d' ! ((t div L) * L + wrap_index L (?q ! (t mod L)))) [0..<n * L]"
    using take_axis_flat[of n L ?d' ?q] lq by simp
  also have "\<dots> = map (\<lambda>t. d ! t) [0..<n * L]"
  proof (rule map_cong[OF refl])
    fix t assume "t \<in> set [0..<n * L]"
    then have t: "t < n * L" by simp
    then have L0: "0 < L" by (cases L) auto
    have r: "t div L < n" using t by (simp add: less_mult_imp_div_less)
    have j: "t mod L < L" using L0 by simp
    let ?c = "wrap_index L (?q ! (t mod L))"
    have c: "?c < L" "p ! ?c = int (t mod L)"
      using inverse_permutation_nth[OF assms(1) j] by simp_all
    have "(t div L) * L + ?c < (t div L) * L + L" using c(1) by simp
    also have "\<dots> = Suc (t div L) * L" by simp
    also have "\<dots> \<le> n * L" using r by (intro mult_le_mono1) simp
    finally have s: "(t div L) * L + ?c < n * L" .
    have sd: "((t div L) * L + ?c) div L = t div L" using c(1) by simp
    have sm: "((t div L) * L + ?c) mod L = ?c" using c(1) by simp
    have pc: "p ! ?c \<in> set p" using c(1) pp(1) by simp
    have "?d' ! ((t div L) * L + ?c) = d ! ((t div L) * L + wrap_index L (p ! ?c))"
      using s c(1) unfolding d' by (simp add: sd)
    also have "\<dots> = d ! ((t div L) * L + t mod L)"
      using pp(5)[OF pc] c(2) by simp
    also have "\<dots> = d ! t" by simp
    finally show "?d' ! ((t div L) * L + ?c) = d ! t" .
  qed
  also have "\<dots> = d" using assms(2) map_nth[of d] by simp
  finally show ?thesis .
qed

lemma length_take_axis: "length (take_axis n l 1 d idx) = n * length idx"
  by (simp add: take_axis_flat)

lemma round_trip_batch:
  assumes wf: "wf_array B" and sh: "shape B = [n, 28, 28]" and n: "0 < n"
    and p: "is_permutation 784 p"
  shows "permute_then_unpermute B p = Inr \<lparr>shape = filter (\<lambda>d. d \<noteq> 1) [n, 28, 28], data = data B\<rparr>"
proof -
  note pp = is_permutation_props[OF p]
  let ?q = "inverse_permutation p"
  have lq: "length ?q = 784" using pp(1) by (simp add: length_inverse_permutation)
  have okq: "list_all (index_ok 784) ?q" by (rule inverse_permutation_ok[OF p])
  have ld: "length (data B) = n * 784" using wf sh by (simp add: wf_array_def)
  let ?B1 = "\<lparr>shape = filter (\<lambda>d. d \<noteq> 1) [n, 28, 28],
              data = take_axis n 784 (Suc 0) (data B) p\<rparr>"
  have s1: "shuffle_image B p = Inr ?B1"
    using sh n pp(1) pp(4) by (simp add: shuffle_image_def shuffle_image_hw_batch)
  have rt: "take_axis n 784 (Suc 0) (take_axis n 784 (Suc 0) (data B) p) ?q = data B"
    using gather_round_trip[OF p ld] by simp
  have s2: "shuffle_image ?B1 ?q = Inr \<lparr>shape = filter (\<lambda>d. d \<noteq> 1) [n, 28, 28], data = data B\<rparr>"
  proof (cases "n = 1")
    case True
    have "shuffle_image ?B1 ?q = shuffle_image_hw 28 28 (?B1\<lparr>shape := [1, 28, 28]\<rparr>) ?q"
      unfolding shuffle_image_def using True by (intro shuffle_image_hw_single) simp
    also have "\<dots> = Inr \<lparr>shape = filter (\<lambda>d. d \<noteq> 1) [n, 28, 28], data = data B\<rparr>"
      using True lq okq rt by (simp add: shuffle_image_hw_batch)
    finally show ?thesis .
  next
    case False
    then have "shape ?B1 = [n, 28, 28]" by simp
    then show ?thesis using n lq okq rt False
      by (simp add: shuffle_image_def shuffle_image_hw_batch)
  qed
  show ?thesis unfolding permute_then_unpermute_def s1 using s2 by simp
qed

lemma round_trip_squeezes:
  assumes wf: "wf_array B" and p: "is_permutation 784 p"
    and sh: "shape B = [28, 28] \<or> (shape B = [n, 28, 28] \<and> 0 < n)"
  shows "permute_then_unpermute B p = Inr (squeeze B)"
  using sh
proof
  assume s: "shape B = [28, 28]"
  let ?B' = "B\<lparr>shape := [1, 28, 28]\<rparr>"
  have wf': "wf_array ?B'" using wf s by (simp add: wf_array_def)
  have e1: "shuffle_image B p = shuffle_image ?B' p"
    unfolding shuffle_image_def using s by (rule shuffle_image_hw_single)
  have "permute_then_unpermute B p = permute_then_unpermute ?B' p"
    by (simp add: permute_then_unpermute_def e1)
  also have "\<dots> = Inr \<lparr>shape = filter (\<lambda>d. d \<noteq> 1) [1, 28, 28], data = data ?B'\<rparr>"
    by (rule round_trip_batch[OF wf' _ _ p]) simp_all
  also have "\<dots> = Inr (squeeze B)" using s by (simp add: squeeze_def)
  finally show ?thesis .
next
  assume s: "shape B = [n, 28, 28] \<and> 0 < n"
  then have "permute_then_unpermute B p =
             Inr \<lparr>shape = filter (\<lambda>d. d \<noteq> 1) [n, 28, 28], data = data B\<rparr>"
    using round_trip_batch[OF wf _ _ p, of n] by simp
  also have "\<dots> = Inr (squeeze B)" using s by (simp add: squeeze_def)
  finally show ?thesis .
qed

lemma squeeze_unchanged:
  "shape B = [28, 28] \<or> (shape B = [n, 28, 28] \<and> n \<noteq> 1) \<Longrightarrow> squeeze B = B"
  by (auto simp: squeeze_def)

text \<open>
  C6, as the code has it. For every well-formed image batch of shape \<open>[n, 28, 28]\<close> with
  at least one image, and for a single image of shape \<open>[28, 28]\<close>, permuting with a
  permutation of \<open>[0, 784)\<close> and then with its inverse returns the pixels of the input, all of
  them and in their order, in the squeezed shape of the input. That is the input itself
  unless the input is a batch of one image with its batch axis, which comes back as a single
  image without that axis.
\<close>

theorem permute_unpermute_round_trip:
  assumes "wf_array B" and "is_permutation 784 p"
    and "shape B = [28, 28] \<or> (shape B = [n, 28, 28] \<and> 0 < n)"
  shows "permute_then_unpermute B p = Inr (squeeze B)
         \<and> data (squeeze B) = data B
         \<and> (shape B \<noteq> [1, 28, 28] \<longrightarrow> permute_then_unpermute B p = Inr B)"
proof -
  have a: "permute_then_unpermute B p = Inr (squeeze B)"
    by (rule round_trip_squeezes[OF assms])
  have "shape B \<noteq> [1, 28, 28] \<Longrightarrow> squeeze B = B"
    using assms(3) by (intro squeeze_unchanged[of B n]) auto
  then show ?thesis using a by (auto simp: squeeze_def)
qed

theorem permute_unpermute_round_trip_witness:
  "wf_array \<lparr>shape = [2, 28, 28], data = replicate 1568 (0::int)\<rparr>
   \<and> is_permutation 784 (arange 784)
   \<and> permute_then_unpermute \<lparr>shape = [2, 28, 28], data = replicate 1568 (0::int)\<rparr> (arange 784)
       = Inr \<lparr>shape = [2, 28, 28], data = replicate 1568 (0::int)\<rparr>"
  using permute_unpermute_round_trip[of "\<lparr>shape = [2, 28, 28], data = replicate 1568 (0::int)\<rparr>"
      "arange 784" 2] is_permutation_arange[of 784]
  by (simp add: wf_array_def squeeze_def)

theorem permute_unpermute_counterexample:
  "permute_then_unpermute \<lparr>shape = [1, 28, 28], data = replicate 784 (0::int)\<rparr> (arange 784)
     \<noteq> Inr \<lparr>shape = [1, 28, 28], data = replicate 784 (0::int)\<rparr>"
  using round_trip_squeezes[of "\<lparr>shape = [1, 28, 28], data = replicate 784 (0::int)\<rparr>"
      "arange 784" 1] is_permutation_arange[of 784]
  by (simp add: wf_array_def squeeze_def)

section \<open>Wrong lengths and wrong weight lists\<close>


lemma magic_fails:
  assumes "length (weights model) \<noteq> 4
           \<or> take 1 (shape (hd (weights model))) \<noteq> [length shuf_idx]"
  shows "magic model shuf_idx = Inl ValueError \<or> magic model shuf_idx = Inl IndexError"
proof (cases "length (weights model) = 4")
  case False
  then have "magic model shuf_idx = Inl ValueError"
    by (auto simp: magic_def get_weights_def split: list.splits)
  then show ?thesis ..
next
  case True
  then obtain W b w c where ws: "weights model = [W, b, w, c]"
    by (auto simp: length_Suc_conv numeral_eq_Suc)
  with assms True have k: "take 1 (shape W) \<noteq> [length shuf_idx]" by simp
  show ?thesis
  proof (cases "take_rows W shuf_idx")
    case (Inl e)
    then show ?thesis using ws by (cases e) (simp_all add: magic_def get_weights_def)
  next
    case (Inr W_shuf)
    then have "shape W_shuf \<noteq> shape W" using k
      by (auto simp: take_rows_def split: list.splits if_splits)
    then have "magic model shuf_idx = Inl ValueError"
      using ws Inr by (simp add: magic_def get_weights_def set_weights_def)
    then show ?thesis ..
  qed
qed

lemma shuffle_image_fails_iff:
  assumes "(shape img = [n, 28, 28] \<and> 0 < n) \<or> (shape img = [28, 28] \<and> n = 1)"
    and "list_all (index_ok 784) shuf_idx"
  shows "shuffle_image img shuf_idx =
          (if (n * length shuf_idx) mod 784 \<noteq> 0 then Inl ValueError
           else Inr \<lparr>shape = filter (\<lambda>d. d \<noteq> 1) [(n * length shuf_idx) div 784, 28, 28],
                     data = take_axis n 784 1 (data img) shuf_idx\<rparr>)"
  using assms(1)
proof
  assume "shape img = [n, 28, 28] \<and> 0 < n"
  then show ?thesis using assms(2)
    by (simp add: shuffle_image_def shuffle_image_hw_batch)
next
  assume s: "shape img = [28, 28] \<and> n = 1"
  have "shuffle_image img shuf_idx = shuffle_image_hw 28 28 (img\<lparr>shape := [1, 28, 28]\<rparr>) shuf_idx"
    unfolding shuffle_image_def using s by (intro shuffle_image_hw_single) simp
  then show ?thesis using assms(2) s
    by (simp add: shuffle_image_hw_batch)
qed

text \<open>
  C4, as the code has it. Neither function compares a length with a size. The permuter,
  on a batch of \<open>n\<close> images, raises IndexError when an index lies outside \<open>[-784, 784)\<close>;
  otherwise it raises ValueError, from its last reshape, exactly when \<open>n\<close> times the length of
  the index sequence is no multiple of 784, and returns a result for every other length. The
  realigner fails, with ValueError or IndexError, whenever the model has not exactly four
  weight arrays or the number of rows of the kernel differs from the length of the index
  sequence. A failed call returns no result and no new model.
\<close>

theorem shape_mismatch_failures:
  assumes "(shape img = [n, 28, 28] \<and> 0 < n) \<or> (shape img = [28, 28] \<and> n = 1)"
  shows "shuffle_image img shuf_idx =
          (if \<not> list_all (index_ok 784) shuf_idx then Inl IndexError
           else if (n * length shuf_idx) mod 784 \<noteq> 0 then Inl ValueError
           else Inr \<lparr>shape = filter (\<lambda>d. d \<noteq> 1) [(n * length shuf_idx) div 784, 28, 28],
                     data = take_axis n 784 1 (data img) shuf_idx\<rparr>)
         \<and> (length (weights model) \<noteq> 4
              \<or> take 1 (shape (hd (weights model))) \<noteq> [length perm]
            \<longrightarrow> magic model perm = Inl ValueError \<or> magic model perm = Inl IndexError)"
proof (intro conjI impI)
  show "shuffle_image img shuf_idx =
          (if \<not> list_all (index_ok 784) shuf_idx then Inl IndexError
           else if (n * length shuf_idx) mod 784 \<noteq> 0 then Inl ValueError
           else Inr \<lparr>shape = filter (\<lambda>d. d \<noteq> 1) [(n * length shuf_idx) div 784, 28, 28],
                     data = take_axis n 784 1 (data img) shuf_idx\<rparr>)"
  proof (cases "list_all (index_ok 784) shuf_idx")
    case True
    then show ?thesis using shuffle_image_fails_iff[OF assms True] by simp
  next
    case False
    have "shuffle_image img shuf_idx = Inl IndexError"
      using assms
    proof
      assume "shape img = [n, 28, 28] \<and> 0 < n"
      then show ?thesis using False by (simp add: shuffle_image_def shuffle_image_hw_batch)
    next
      assume s: "shape img = [28, 28] \<and> n = 1"
      have "shuffle_image img shuf_idx =
            shuffle_image_hw 28 28 (img\<lparr>shape := [1, 28, 28]\<rparr>) shuf_idx"
        unfolding shuffle_image_def using s by (intro shuffle_image_hw_single) simp
      then show ?thesis using False by (simp add: shuffle_image_hw_batch)
    qed
    then show ?thesis using False by simp
  qed
next
  assume "length (weights model) \<noteq> 4 \<or> take 1 (shape (hd (weights model))) \<noteq> [length perm]"
  then show "magic model perm = Inl ValueError \<or> magic model perm = Inl IndexError"
    by (rule magic_fails)
qed

theorem shape_mismatch_failures_witness:
  "shuffle_image \<lparr>shape = [2, 28, 28], data = replicate 1568 (0::int)\<rparr> (arange 783)
     = Inl ValueError
   \<and> length (weights \<lparr>weights = [\<lparr>shape = [784, 1], data = replicate 784 (0::int)\<rparr>]\<rparr>) \<noteq> 4
   \<and> magic \<lparr>weights = [\<lparr>shape = [784, 1], data = replicate 784 (0::int)\<rparr>]\<rparr> (arange 784)
       = Inl ValueError"
  using shape_mismatch_failures[where img = "\<lparr>shape = [2, 28, 28], data = replicate 1568 (0::int)\<rparr>"
      and n = 2 and shuf_idx = "arange 783" and perm = "arange 784"
      and model = "\<lparr>weights = [\<lparr>shape = [784, 1], data = replicate 784 (0::int)\<rparr>]\<rparr>"]
    arange_index_ok[of 783 784]
  by (simp add: length_arange magic_def get_weights_def)

theorem shape_mismatch_counterexample:
  "length (arange 392) \<noteq> 28 * 28
   \<and> shuffle_image \<lparr>shape = [2, 28, 28], data = replicate 1568 (0::int)\<rparr> (arange 392)
       = Inr \<lparr>shape = [28, 28], data = replicate 784 0\<rparr>"
  using shuffle_image_fails_iff[of "\<lparr>shape = [2, 28, 28], data = replicate 1568 (0::int)\<rparr>" 2
      "arange 392"]
    arange_index_ok[of 392 784] take_axis_replicate[of 784 "arange 392" 2 "0::int"]
  by (simp add: length_arange)

section \<open>The realigned kernel on the permuted image\<close>


lemma sum_list_permuted:
  fixes g :: "nat \<Rightarrow> 'a::comm_monoid_add"
  assumes "is_permutation D p"
  shows "(\<Sum>i\<leftarrow>[0..<D]. g (wrap_index D (p ! i))) = (\<Sum>i\<leftarrow>[0..<D]. g i)"
proof -
  note pp = is_permutation_props[OF assms]
  have "map (\<lambda>i. g (wrap_index D (p ! i))) [0..<D] = map (\<lambda>k. g (wrap_index D k)) p"
    using pp(1) by (intro nth_equalityI) simp_all
  also have "\<dots> = map g (map nat p)"
    using pp(5) by (simp cong: map_cong)
  finally have "(\<Sum>i\<leftarrow>[0..<D]. g (wrap_index D (p ! i))) = sum_list (map g (map nat p))"
    by simp
  also have "\<dots> = sum_mset (image_mset g (mset (map nat p)))"
    by (simp only: sum_mset_sum_list[symmetric] mset_map)
  also have "mset (map nat p) = mset (map nat (arange (int D)))"
    using assms by (simp only: is_permutation_def mset_map)
  also have "map nat (arange (int D)) = [0..<D]"
    by (simp add: arange_def o_def)
  also have "sum_mset (image_mset g (mset [0..<D])) = sum_list (map g [0..<D])"
    by (simp only: sum_mset_sum_list[symmetric] mset_map)
  finally show ?thesis .
qed

lemma magic_realigns:
  assumes "weights model = [K, b, K2, b2]" and "shape K = [D, H]" and "is_permutation D p"
  shows "magic model p =
           Inr (model\<lparr>weights :=
             [\<lparr>shape = [D, H],
               data = map (\<lambda>t. data K ! (wrap_index D (p ! (t div H)) * H + t mod H)) [0..<D * H]\<rparr>,
              b, K2, b2]\<rparr>)"
proof -
  note pp = is_permutation_props[OF assms(3)]
  have "take_rows K p = Inr \<lparr>shape = [D, H], data = take_axis (Suc 0) D H (data K) p\<rparr>"
    using assms(2) pp(1) pp(4) by (simp add: take_rows_def)
  moreover have "take_axis (Suc 0) D H (data K) p =
      map (\<lambda>t. data K ! (wrap_index D (p ! (t div H)) * H + t mod H)) [0..<D * H]"
    using take_axis_rows_flat[of D H "data K" p] pp(1) by simp
  ultimately show ?thesis using assms(1,2)
    by (simp add: magic_def get_weights_def set_weights_def)
qed

lemma shuffle_image_hw_one_image:
  assumes "shape x = [h, w]" and "h * w = D" and "0 < D" and "is_permutation D p"
  shows "shuffle_image_hw h w x p =
           Inr \<lparr>shape = filter (\<lambda>d. d \<noteq> 1) [1, h, w],
                data = map (\<lambda>k. data x ! wrap_index D k) p\<rparr>"
proof -
  note pp = is_permutation_props[OF assms(4)]
  have "shuffle_image_hw h w x p = shuffle_image_hw h w (x\<lparr>shape := [1, h, w]\<rparr>) p"
    using assms(1) by (rule shuffle_image_hw_single)
  also have "\<dots> = Inr \<lparr>shape = filter (\<lambda>d. d \<noteq> 1) [1, h, w],
                data = map (\<lambda>k. data x ! wrap_index D k) p\<rparr>"
    using assms(2,3) pp(1) pp(4)
    by (simp add: shuffle_image_hw_batch[of _ 1 h w] take_axis_one_row)
  finally show ?thesis .
qed

lemma kernel_T_dot_realigned:
  fixes K :: "'a::comm_semiring_0 ndarray"
  assumes "shape K = [D, H]" and "is_permutation D p"
  shows "kernel_T_dot
           \<lparr>shape = [D, H],
            data = map (\<lambda>t. data K ! (wrap_index D (p ! (t div H)) * H + t mod H)) [0..<D * H]\<rparr>
           (map (\<lambda>k. dx ! wrap_index D k) p)
         = kernel_T_dot K dx"
proof -
  note pp = is_permutation_props[OF assms(2)]
  let ?d' = "map (\<lambda>t. data K ! (wrap_index D (p ! (t div H)) * H + t mod H)) [0..<D * H]"
  let ?x' = "map (\<lambda>k. dx ! wrap_index D k) p"
  have "(\<Sum>i\<leftarrow>[0..<D]. ?d' ! (i * H + u) * ?x' ! i) = (\<Sum>i\<leftarrow>[0..<D]. data K ! (i * H + u) * dx ! i)"
    if u: "u < H" for u
  proof -
    have m: "map (\<lambda>i. ?d' ! (i * H + u) * ?x' ! i) [0..<D] =
          map (\<lambda>i. data K ! (wrap_index D (p ! i) * H + u) * dx ! wrap_index D (p ! i)) [0..<D]"
    proof (rule map_cong[OF refl])
      fix i assume "i \<in> set [0..<D]"
      then have i: "i < D" by simp
      have "i * H + u < i * H + H" using u by simp
      also have "\<dots> = Suc i * H" by simp
      also have "\<dots> \<le> D * H" using i by (intro mult_le_mono1) simp
      finally have b: "i * H + u < D * H" .
      have "?d' ! (i * H + u) = data K ! (wrap_index D (p ! i) * H + u)"
        using b u by simp
      moreover have "?x' ! i = dx ! wrap_index D (p ! i)" using i pp(1) by simp
      ultimately show "?d' ! (i * H + u) * ?x' ! i =
        data K ! (wrap_index D (p ! i) * H + u) * dx ! wrap_index D (p ! i)" by simp
    qed
    have "(\<Sum>i\<leftarrow>[0..<D]. ?d' ! (i * H + u) * ?x' ! i) =
          (\<Sum>i\<leftarrow>[0..<D]. data K ! (wrap_index D (p ! i) * H + u) * dx ! wrap_index D (p ! i))"
      by (simp only: m)
    also have "\<dots> = (\<Sum>i\<leftarrow>[0..<D]. data K ! (i * H + u) * dx ! i)"
      by (rule sum_list_permuted[OF assms(2), of "\<lambda>j. data K ! (j * H + u) * dx ! j"])
    finally show ?thesis .
  qed
  then show ?thesis using assms(1)
    by (simp add: kernel_T_dot_def cong: map_cong)
qed

text \<open>
  C1, as the code has it. Let the model hold the four arrays \<open>K, b, K2, b2\<close> with \<open>K\<close> of
  shape \<open>[784, H]\<close>, let \<open>p\<close> be a permutation of \<open>[0, 784)\<close> and \<open>x\<close> an image of 28 by 28
  pixels. The realigner replaces the kernel, and nothing else, by the kernel \<open>K'\<close> whose row
  \<open>i\<close> is row \<open>p[i]\<close> of \<open>K\<close>; the permuter returns the image \<open>x'\<close> whose pixel \<open>i\<close> is pixel
  \<open>p[i]\<close> of \<open>x\<close>; and \<open>K'\<close> transposed times \<open>x'\<close> equals \<open>K\<close> transposed times \<open>x\<close>, entry by
  entry and exactly, over any commutative semiring. For an image of another size the
  permuter of the source returns no permuted image of that size.
\<close>

theorem realigned_kernel_invariance:
  fixes K :: "'a::comm_semiring_0 ndarray"
  assumes "weights model = [K, b, K2, b2]" and "shape K = [784, H]"
    and "is_permutation 784 p" and "shape x = [28, 28]"
  shows "\<exists>K' x'.
           magic model p = Inr (model\<lparr>weights := [K', b, K2, b2]\<rparr>)
         \<and> shape K' = [784, H] \<and> length (data K') = 784 * H
         \<and> (\<forall>i<784. \<forall>u<H. data K' ! (i * H + u) = data K ! (nat (p ! i) * H + u))
         \<and> shuffle_image x p = Inr x'
         \<and> shape x' = [28, 28] \<and> length (data x') = 784
         \<and> (\<forall>i<784. data x' ! i = data x ! nat (p ! i))
         \<and> kernel_T_dot K' (data x') = kernel_T_dot K (data x)
         \<and> realigned_preactivation model x p = Inr (kernel_T_dot K (data x))"
proof -
  note pp = is_permutation_props[OF assms(3)]
  let ?K' = "\<lparr>shape = [784, H],
      data = map (\<lambda>t. data K ! (wrap_index 784 (p ! (t div H)) * H + t mod H)) [0..<784 * H]\<rparr>"
  let ?x' = "\<lparr>shape = [28, 28], data = map (\<lambda>k. data x ! wrap_index 784 k) p\<rparr>"
  have m: "magic model p = Inr (model\<lparr>weights := [?K', b, K2, b2]\<rparr>)"
    by (rule magic_realigns[OF assms(1,2,3)])
  have s: "shuffle_image x p = Inr ?x'"
    using shuffle_image_hw_one_image[OF assms(4) _ _ assms(3)]
    by (simp add: shuffle_image_def)
  have w: "wrap_index 784 (p ! i) = nat (p ! i)" if "i < 784" for i
  proof -
    have "p ! i \<in> set p" using that pp(1) by simp
    then show ?thesis by (rule pp(5))
  qed
  have rows: "\<forall>i<784. \<forall>u<H. data ?K' ! (i * H + u) = data K ! (nat (p ! i) * H + u)"
  proof (intro allI impI)
    fix i u :: nat assume i: "i < 784" and u: "u < H"
    have "i * H + u < i * H + H" using u by simp
    also have "\<dots> = Suc i * H" by simp
    also have "\<dots> \<le> 784 * H" using i by (intro mult_le_mono1) simp
    finally have b: "i * H + u < 784 * H" .
    show "data ?K' ! (i * H + u) = data K ! (nat (p ! i) * H + u)"
      using b u w[OF i] by simp
  qed
  have pixels: "\<forall>i<784. data ?x' ! i = data x ! nat (p ! i)"
    using pp(1) w by simp
  have k: "kernel_T_dot ?K' (data ?x') = kernel_T_dot K (data x)"
    using kernel_T_dot_realigned[OF assms(2,3), of "data x"] by simp
  have r: "realigned_preactivation model x p = Inr (kernel_T_dot K (data x))"
    unfolding realigned_preactivation_def m s using k by (simp add: get_weights_def)
  have "magic model p = Inr (model\<lparr>weights := [?K', b, K2, b2]\<rparr>)
         \<and> shape ?K' = [784, H] \<and> length (data ?K') = 784 * H
         \<and> (\<forall>i<784. \<forall>u<H. data ?K' ! (i * H + u) = data K ! (nat (p ! i) * H + u))
         \<and> shuffle_image x p = Inr ?x'
         \<and> shape ?x' = [28, 28] \<and> length (data ?x') = 784
         \<and> (\<forall>i<784. data ?x' ! i = data x ! nat (p ! i))
         \<and> kernel_T_dot ?K' (data ?x') = kernel_T_dot K (data x)
         \<and> realigned_preactivation model x p = Inr (kernel_T_dot K (data x))"
    using m rows s pixels k r pp(1) by simp
  then show ?thesis by blast
qed

theorem realigned_kernel_invariance_witness:
  "is_permutation 784 (rev (arange 784))
   \<and> realigned_preactivation
        \<lparr>weights = [\<lparr>shape = [784, 1], data = arange 784\<rparr>, \<lparr>shape = [1], data = [0]\<rparr>,
                    \<lparr>shape = [1, 1], data = [1]\<rparr>, \<lparr>shape = [1], data = [0]\<rparr>]\<rparr>
        \<lparr>shape = [28, 28], data = arange 784\<rparr> (rev (arange 784))
       = Inr (kernel_T_dot \<lparr>shape = [784, 1], data = arange 784\<rparr> (arange 784))"
proof -
  have p: "is_permutation 784 (rev (arange 784))"
    by (simp add: is_permutation_def)
  show ?thesis
    using p realigned_kernel_invariance[where
        model = "\<lparr>weights = [\<lparr>shape = [784, 1], data = arange 784\<rparr>, \<lparr>shape = [1], data = [0]\<rparr>,
                    \<lparr>shape = [1, 1], data = [1]\<rparr>, \<lparr>shape = [1], data = [0]\<rparr>]\<rparr>"
        and K = "\<lparr>shape = [784, 1], data = arange 784\<rparr>"
        and b = "\<lparr>shape = [1], data = [0]\<rparr>" and ?K2.0 = "\<lparr>shape = [1, 1], data = [1]\<rparr>"
        and ?b2.0 = "\<lparr>shape = [1], data = [0]\<rparr>" and H = 1 and p = "rev (arange 784)"
        and x = "\<lparr>shape = [28, 28], data = arange 784\<rparr>"]
    by auto
qed

theorem realigned_kernel_counterexample:
  "is_permutation 4 [2, 0, 3, 1]
   \<and> shuffle_image \<lparr>shape = [2, 2], data = [1, 10, 100, 1000 :: int]\<rparr> [2, 0, 3, 1]
       = Inl ValueError
   \<and> realigned_preactivation
        \<lparr>weights = [\<lparr>shape = [4, 2], data = [1, 2, 3, 4, 5, 6, 7, 8 :: int]\<rparr>,
                    \<lparr>shape = [2], data = [0, 0]\<rparr>, \<lparr>shape = [2, 1], data = [1, 1]\<rparr>,
                    \<lparr>shape = [1], data = [0]\<rparr>]\<rparr>
        \<lparr>shape = [2, 2], data = [1, 10, 100, 1000]\<rparr> [2, 0, 3, 1]
       \<noteq> Inr (kernel_T_dot \<lparr>shape = [4, 2], data = [1, 2, 3, 4, 5, 6, 7, 8]\<rparr>
                [1, 10, 100, 1000])"
proof -
  have p: "is_permutation 4 [2, 0, 3, 1]"
    by (simp add: is_permutation_def arange_def upt_rec)
  have m: "magic \<lparr>weights = [\<lparr>shape = [4, 2], data = [1, 2, 3, 4, 5, 6, 7, 8 :: int]\<rparr>,
                    \<lparr>shape = [2], data = [0, 0]\<rparr>, \<lparr>shape = [2, 1], data = [1, 1]\<rparr>,
                    \<lparr>shape = [1], data = [0]\<rparr>]\<rparr> [2, 0, 3, 1]
           = Inr \<lparr>weights = [\<lparr>shape = [4, 2],
                  data = map (\<lambda>t. [1, 2, 3, 4, 5, 6, 7, 8 :: int] !
                      (wrap_index 4 ([2, 0, 3, 1] ! (t div 2)) * 2 + t mod 2)) [0..<4 * 2]\<rparr>,
                    \<lparr>shape = [2], data = [0, 0]\<rparr>, \<lparr>shape = [2, 1], data = [1, 1]\<rparr>,
                    \<lparr>shape = [1], data = [0]\<rparr>]\<rparr>"
    using magic_realigns[OF _ _ p, where
        model = "\<lparr>weights = [\<lparr>shape = [4, 2], data = [1, 2, 3, 4, 5, 6, 7, 8 :: int]\<rparr>,
                    \<lparr>shape = [2], data = [0, 0]\<rparr>, \<lparr>shape = [2, 1], data = [1, 1]\<rparr>,
                    \<lparr>shape = [1], data = [0]\<rparr>]\<rparr>" and H = 2]
    by simp
  have s: "shuffle_image \<lparr>shape = [2, 2], data = [1, 10, 100, 1000 :: int]\<rparr> [2, 0, 3, 1]
           = Inl ValueError"
    by (simp add: shuffle_image_def shuffle_image_hw_single shuffle_image_hw_batch index_ok_def)
  show ?thesis using p s unfolding realigned_preactivation_def m by simp
qed

section \<open>The permuter over the store\<close>


lemma take_cols_st_refines:
  assumes "vbuf v < length s"
  shows "take (length s) (snd (take_cols_st s v idx)) = s"
    and "map_sum id (read_view (snd (take_cols_st s v idx))) (fst (take_cols_st s v idx))
         = take_cols (read_view s v) idx"
  using assms
  by (auto simp: take_cols_st_def take_cols_def read_view_def nth_append split: list.splits)

lemma reshape_view_refines:
  "map_sum id (read_view s) (reshape_view v ns) = reshape (read_view s v) ns"
  by (auto simp: reshape_view_def reshape_def read_view_def split: sum.splits)

lemma reshape_view_vbuf: "reshape_view v ns = Inr v' \<Longrightarrow> vbuf v' = vbuf v"
  by (auto simp: reshape_view_def split: sum.splits)

lemma shuffle_image_st_refines:
  assumes b: "vbuf img < length s"
  shows "take (length s) (snd (shuffle_image_st s img idx)) = s
       \<and> map_sum id (read_view (snd (shuffle_image_st s img idx))) (fst (shuffle_image_st s img idx))
         = shuffle_image (read_view s img) idx"
proof -
  define img1 where "img1 = (if length (vshape img) = 2 then img\<lparr>vshape := 1 # vshape img\<rparr> else img)"
  define a1 where "a1 = (if ndim (read_view s img) = 2 then expand_dims0 (read_view s img)
                          else read_view s img)"
  have a1: "a1 = read_view s img1"
    by (simp add: a1_def img1_def read_view_def ndim_def expand_dims0_def)
  have b1: "vbuf img1 < length s" using b by (simp add: img1_def)
  have sh: "shape a1 = vshape img1" by (simp add: a1 read_view_def)
  show ?thesis
  proof (cases "vshape img1")
    case Nil
    then show ?thesis using sh
      by (simp add: shuffle_image_st_def shuffle_image_def shuffle_image_hw_def
          img1_def[symmetric] a1_def[symmetric])
  next
    case (Cons n0 rest)
    note c = Cons
    have st: "shuffle_image_st s img idx =
      (case reshape_view img1 [int n0, - 1] of
                Inl e \<Rightarrow> (Inl e, s)
              | Inr img2 \<Rightarrow>
                  (case take_cols_st s img2 idx of
                     (Inl e, s') \<Rightarrow> (Inl e, s')
                   | (Inr img3, s') \<Rightarrow>
                       (case reshape_view img3 [- 1, 28, 28] of
                          Inl e \<Rightarrow> (Inl e, s')
                        | Inr img4 \<Rightarrow>
                            (Inr (img4\<lparr>vshape := filter (\<lambda>d. d \<noteq> 1) (vshape img4)\<rparr>),
                             s'))))"
      using c by (simp add: shuffle_image_st_def img1_def[symmetric])
    have pu: "shuffle_image (read_view s img) idx =
      (case reshape a1 [int n0, - 1] of
                Inl e \<Rightarrow> Inl e
              | Inr image2 \<Rightarrow>
                  (case take_cols image2 idx of
                     Inl e \<Rightarrow> Inl e
                   | Inr image3 \<Rightarrow>
                       (case reshape image3 [- 1, int 28, int 28] of
                          Inl e \<Rightarrow> Inl e
                        | Inr image4 \<Rightarrow> Inr (squeeze image4))))"
      using c sh by (simp add: shuffle_image_def shuffle_image_hw_def a1_def[symmetric])
    have r1: "map_sum id (read_view s) (reshape_view img1 [int n0, - 1]) = reshape a1 [int n0, - 1]"
      unfolding a1 by (rule reshape_view_refines)
    show ?thesis
    proof (cases "reshape_view img1 [int n0, - 1]")
      case (Inl e)
      then have "reshape a1 [int n0, - 1] = Inl e" using r1 by simp
      then show ?thesis using Inl by (simp add: st pu)
    next
      case (Inr img2)
      then have p2: "reshape a1 [int n0, - 1] = Inr (read_view s img2)" using r1 by simp
      have b2: "vbuf img2 < length s" using reshape_view_vbuf[OF Inr] b1 by simp
      obtain r3 s' where t: "take_cols_st s img2 idx = (r3, s')" by (cases "take_cols_st s img2 idx")
      have f: "take (length s) s' = s"
        and r3: "map_sum id (read_view s') r3 = take_cols (read_view s img2) idx"
        using take_cols_st_refines[OF b2, of idx] t by simp_all
      show ?thesis
      proof (cases r3)
        case (Inl e)
        then have "take_cols (read_view s img2) idx = Inl e" using r3 by simp
        then show ?thesis using Inl f by (simp add: st pu Inr p2 t)
      next
        case i3: (Inr img3)
        then have p3: "take_cols (read_view s img2) idx = Inr (read_view s' img3)" using r3 by simp
        have r4: "map_sum id (read_view s') (reshape_view img3 [- 1, 28, 28])
                  = reshape (read_view s' img3) [- 1, 28, 28]"
          by (rule reshape_view_refines)
        show ?thesis
        proof (cases "reshape_view img3 [- 1, 28, 28]")
          case (Inl e)
          then have "reshape (read_view s' img3) [- 1, 28, 28] = Inl e" using r4 by simp
          then show ?thesis using Inl f by (simp add: st pu Inr p2 t i3 p3)
        next
          case i4: (Inr img4)
          then have p4: "reshape (read_view s' img3) [- 1, 28, 28] = Inr (read_view s' img4)"
            using r4 by simp
          have "read_view s' (img4\<lparr>vshape := filter (\<lambda>d. d \<noteq> 1) (vshape img4)\<rparr>)
                = squeeze (read_view s' img4)"
            by (simp add: read_view_def squeeze_def)
          then show ?thesis using f by (simp add: st pu Inr p2 t i3 p3 i4 p4)
        qed
      qed
    qed
  qed
qed

lemma store_prefix_read:
  assumes "take (length s) s' = s" and "vbuf v < length s"
  shows "read_view s' v = read_view s v" and "vbuf v < length s'"
proof -
  have "length s \<le> length s'" using assms(1) by (metis length_take min.cobounded1)
  then show "vbuf v < length s'" using assms(2) by simp
  have "s ! vbuf v = take (length s) s' ! vbuf v" using assms(1) by simp
  also have "\<dots> = s' ! vbuf v" using assms(2) by simp
  finally show "read_view s' v = read_view s v" by (simp add: read_view_def)
qed

text \<open>
  C8. The permuter writes to no existing array. After a call every buffer that the store
  held before, the buffer of the input batch among them, holds the values it held before;
  the returned array is the value that the permuter computes from the arguments alone; and
  a second call with the same arguments, made in the store that the first call left,
  returns an array with the same shape and the same elements.
\<close>

theorem shuffle_image_pure:
  assumes "vbuf img < length s"
  shows "take (length s) (snd (shuffle_image_st s img idx)) = s
       \<and> read_view (snd (shuffle_image_st s img idx)) img = read_view s img
       \<and> map_sum id (read_view (snd (shuffle_image_st s img idx)))
            (fst (shuffle_image_st s img idx)) = shuffle_image (read_view s img) idx
       \<and> map_sum id (read_view (snd (shuffle_image_st (snd (shuffle_image_st s img idx)) img idx)))
            (fst (shuffle_image_st (snd (shuffle_image_st s img idx)) img idx))
          = map_sum id (read_view (snd (shuffle_image_st s img idx)))
              (fst (shuffle_image_st s img idx))"
proof -
  let ?s1 = "snd (shuffle_image_st s img idx)"
  have f: "take (length s) ?s1 = s"
    and v: "map_sum id (read_view ?s1) (fst (shuffle_image_st s img idx))
            = shuffle_image (read_view s img) idx"
    using shuffle_image_st_refines[OF assms, of idx] by simp_all
  have r: "read_view ?s1 img = read_view s img" and b: "vbuf img < length ?s1"
    using store_prefix_read[OF f assms] by simp_all
  have "map_sum id (read_view (snd (shuffle_image_st ?s1 img idx)))
            (fst (shuffle_image_st ?s1 img idx)) = shuffle_image (read_view ?s1 img) idx"
    using shuffle_image_st_refines[OF b, of idx] by simp
  then show ?thesis using f v r by simp
qed

theorem shuffle_image_pure_witness:
  "vbuf \<lparr>vshape = [28, 28], vbuf = 0\<rparr> < length [replicate 784 (0::int)]
   \<and> take (length [replicate 784 (0::int)])
        (snd (shuffle_image_st [replicate 784 (0::int)] \<lparr>vshape = [28, 28], vbuf = 0\<rparr> (arange 784)))
       = [replicate 784 (0::int)]
   \<and> read_view (snd (shuffle_image_st [replicate 784 (0::int)] \<lparr>vshape = [28, 28], vbuf = 0\<rparr>
         (arange 784))) \<lparr>vshape = [28, 28], vbuf = 0\<rparr>
       = \<lparr>shape = [28, 28], data = replicate 784 (0::int)\<rparr>"
  using shuffle_image_pure[of "\<lparr>vshape = [28, 28], vbuf = 0\<rparr>" "[replicate 784 (0::int)]"
      "arange 784"]
  by (simp add: read_view_def)

section \<open>Parity of the generated permutation\<close>


lemma inversions_append:
  "inversions (xs @ ys) =
     inversions xs + (\<Sum>x\<leftarrow>xs. length (filter (\<lambda>y. y < x) ys)) + inversions ys"
  by (induction xs) simp_all

lemma cross_mset_cong:
  assumes "mset ys = mset zs"
  shows "(\<Sum>x\<leftarrow>xs. length (filter (\<lambda>y. y < x) ys)) = (\<Sum>x\<leftarrow>xs. length (filter (\<lambda>y. y < x) (zs :: int list)))"
proof -
  have "length (filter P ys) = length (filter P zs)" for P
  proof -
    have "length (filter P ys) = size (filter_mset P (mset ys))"
      by (simp only: mset_filter[symmetric] size_mset)
    also have "\<dots> = size (filter_mset P (mset zs))" using assms by simp
    also have "\<dots> = length (filter P zs)"
      by (simp only: mset_filter[symmetric] size_mset)
    finally show ?thesis .
  qed
  then show ?thesis by simp
qed

lemma cross_Cons_right:
  "(\<Sum>x\<leftarrow>xs. length (filter (\<lambda>y. y < x) (b # ys))) =
     length (filter (\<lambda>x. b < x) xs) + (\<Sum>x\<leftarrow>xs. length (filter (\<lambda>y. y < x) (ys :: int list)))"
  by (induction xs) simp_all

lemma below_above_count:
  "(a::int) \<notin> set xs \<Longrightarrow>
     length (filter (\<lambda>y. y < a) xs) + length (filter (\<lambda>y. a < y) xs) = length xs"
  by (induction xs) auto

lemma inversions_exchange:
  assumes "a \<noteq> b" and "a \<notin> set B" and "b \<notin> set B"
  shows "even (inversions (A @ b # B @ a # C)) \<longleftrightarrow> odd (inversions (A @ a # B @ b # C))"
proof -
  let ?X1 = "a # B @ b # C" and ?X2 = "b # B @ a # C"
  define la where "la = length (filter (\<lambda>y. y < a) B)"
  define ga where "ga = length (filter (\<lambda>y. a < y) B)"
  define lb where "lb = length (filter (\<lambda>y. y < b) B)"
  define gb where "gb = length (filter (\<lambda>y. b < y) B)"
  define ba :: nat where "ba = (if b < a then 1 else 0)"
  define ab :: nat where "ab = (if a < b then 1 else 0)"
  define rest where "rest = length (filter (\<lambda>y. y < a) C) + length (filter (\<lambda>y. y < b) C)
     + inversions B + (\<Sum>x\<leftarrow>B. length (filter (\<lambda>y. y < x) C)) + inversions C"
  have e1: "la + ga = length B" unfolding la_def ga_def by (rule below_above_count[OF assms(2)])
  have e2: "lb + gb = length B" unfolding lb_def gb_def by (rule below_above_count[OF assms(3)])
  have e3: "ba + ab = 1" using assms(1) by (auto simp: ba_def ab_def)
  have x1: "inversions (B @ b # C) = inversions B
      + (gb + (\<Sum>x\<leftarrow>B. length (filter (\<lambda>y. y < x) C))) + inversions (b # C)"
    unfolding gb_def by (simp only: inversions_append cross_Cons_right)
  have x2: "inversions (B @ a # C) = inversions B
      + (ga + (\<Sum>x\<leftarrow>B. length (filter (\<lambda>y. y < x) C))) + inversions (a # C)"
    unfolding ga_def by (simp only: inversions_append cross_Cons_right)
  have i1: "inversions ?X1 = la + ba + gb + rest"
    by (simp add: x1 la_def ba_def rest_def)
  have i2: "inversions ?X2 = lb + ab + ga + rest"
    by (simp add: x2 lb_def ab_def rest_def)
  have m: "mset ?X2 = mset ?X1" by simp
  have c: "(\<Sum>x\<leftarrow>A. length (filter (\<lambda>y. y < x) ?X2)) = (\<Sum>x\<leftarrow>A. length (filter (\<lambda>y. y < x) ?X1))"
    by (rule cross_mset_cong[OF m])
  define base where "base = inversions A + (\<Sum>x\<leftarrow>A. length (filter (\<lambda>y. y < x) ?X1))"
  have t1: "inversions (A @ ?X1) = base + (la + ba + gb + rest)"
    unfolding inversions_append[of A ?X1] i1 base_def by simp
  have t2: "inversions (A @ ?X2) = base + (lb + ab + ga + rest)"
    unfolding inversions_append[of A ?X2] i2 c base_def by simp
  have "inversions (A @ ?X1) + inversions (A @ ?X2) = 2 * (base + rest + length B) + 1"
    unfolding t1 t2 using e1 e2 e3 by arith
  then have "odd (inversions (A @ ?X1) + inversions (A @ ?X2))" by simp
  then show ?thesis by auto
qed

lemma split_at_two:
  assumes "i < j" and "j < length xs"
  shows "\<exists>A B C. xs = A @ xs ! i # B @ xs ! j # C \<and> length A = i \<and> length B = j - Suc i"
proof -
  let ?ys = "drop (Suc i) xs"
  have i: "i < length xs" using assms by simp
  have x: "xs = take i xs @ xs ! i # ?ys" by (rule id_take_nth_drop[OF i])
  have j': "j - Suc i < length ?ys" using assms by simp
  have y: "?ys = take (j - Suc i) ?ys @ ?ys ! (j - Suc i) # drop (Suc (j - Suc i)) ?ys"
    by (rule id_take_nth_drop[OF j'])
  have e: "?ys ! (j - Suc i) = xs ! j" using assms by simp
  have "xs = take i xs @ xs ! i # take (j - Suc i) ?ys @ xs ! j # drop (Suc (j - Suc i)) ?ys"
    using x y e by metis
  moreover have "length (take i xs) = i" using i by simp
  moreover have "length (take (j - Suc i) ?ys) = j - Suc i" using j' by simp
  ultimately show ?thesis by blast
qed

lemma swap_parity_ordered:
  assumes "distinct xs" and "i < j" and "j < length xs"
  shows "even (inversions (xs[i := xs ! j, j := xs ! i])) \<longleftrightarrow> odd (inversions xs)"
proof -
  obtain A B C where x: "xs = A @ xs ! i # B @ xs ! j # C" and lA: "length A = i"
    and lB: "length B = j - Suc i"
    using split_at_two[OF assms(2,3)] by blast
  define a where "a = xs ! i"
  define b where "b = xs ! j"
  have x': "xs = A @ a # B @ b # C" using x by (simp add: a_def b_def)
  have d: "distinct (A @ a # B @ b # C)" using assms(1) x' by simp
  then have ab: "a \<noteq> b" "a \<notin> set B" "b \<notin> set B" by auto
  have j: "j = Suc (length A + length B)" using lA lB assms(2) by simp
  have s1: "(A @ a # B @ b # C)[length A := b] = A @ b # B @ b # C" by simp
  have s2: "(A @ b # B @ b # C)[Suc (length A + length B) := a] = A @ b # B @ a # C"
    using list_update_length[of "A @ b # B" b C a] by simp
  have "(A @ a # B @ b # C)[i := b, j := a] = A @ b # B @ a # C"
    unfolding j lA[symmetric] s1 s2 ..
  moreover have "xs[i := xs ! j, j := xs ! i] = (A @ a # B @ b # C)[i := b, j := a]"
    unfolding a_def[symmetric] b_def[symmetric] using x' by simp
  ultimately have "xs[i := xs ! j, j := xs ! i] = A @ b # B @ a # C" by simp
  then show ?thesis using inversions_exchange[OF ab, of A C] x' by simp
qed

lemma swap_parity:
  assumes "distinct xs" and "i \<noteq> j" and "i < length xs" and "j < length xs"
  shows "even (inversions (swap_positions xs (i, j))) \<longleftrightarrow> odd (inversions xs)"
proof (cases "i < j")
  case True
  then show ?thesis using swap_parity_ordered[OF assms(1) True assms(4)]
    by (simp add: swap_positions_def)
next
  case False
  then have ji: "j < i" using assms(2) by simp
  have "xs[i := xs ! j, j := xs ! i] = xs[j := xs ! i, i := xs ! j]"
    using assms(2) by (simp add: list_update_swap)
  then show ?thesis using swap_parity_ordered[OF assms(1) ji assms(3)]
    by (simp add: swap_positions_def)
qed

lemma inversions_sorted: "sorted xs \<Longrightarrow> inversions xs = 0"
proof (induction xs)
  case Nil
  then show ?case by simp
next
  case (Cons x xs)
  then have "filter (\<lambda>y. y < x) xs = []" by (auto simp: filter_empty_conv)
  then show ?case using Cons by simp
qed

lemma inversions_arange: "inversions (arange sz) = 0"
proof -
  have "sorted (arange sz)" by (simp add: arange_def sorted_map)
  then show ?thesis by (rule inversions_sorted)
qed

lemma swap_loop_parity:
  "(\<forall>t<k. valid_draw a (rnd t)) \<Longrightarrow> int (length xs) = a \<Longrightarrow> distinct xs \<Longrightarrow>
   \<exists>ys. swap_loop k a rnd xs = Inr ys \<and> ys = foldl swap_positions xs (map rnd [0..<k])
        \<and> (even (inversions ys) \<longleftrightarrow> even (inversions xs + k))"
proof (induction k arbitrary: rnd xs)
  case 0
  then show ?case by simp
next
  case (Suc k)
  obtain i j where d: "rnd 0 = (i, j)" by (cases "rnd 0")
  from Suc.prems(1) have v: "valid_draw a (rnd 0)" by simp
  with d Suc.prems(2) have ij: "i < length xs" "j < length xs" "i \<noteq> j"
    by (auto simp: valid_draw_def)
  then have a2: "\<not> a < 2" using Suc.prems(2) by auto
  let ?ys = "swap_positions xs (i, j)"
  have ys: "?ys = xs[i := xs ! j, j := xs ! i]" by (simp add: swap_positions_def)
  have m: "mset ?ys = mset xs" using ij by (simp add: ys mset_swap)
  have dy: "distinct ?ys" using mset_eq_imp_distinct_iff[OF m] Suc.prems(3) by simp
  have par: "even (inversions ?ys) \<longleftrightarrow> odd (inversions xs)"
    by (rule swap_parity[OF Suc.prems(3) ij(3) ij(1) ij(2)])
  have "\<forall>t<k. valid_draw a (rnd (Suc t))" using Suc.prems(1) by auto
  moreover have "int (length ?ys) = a" using Suc.prems(2) by (simp add: ys)
  ultimately obtain zs where z: "swap_loop k a (\<lambda>t. rnd (Suc t)) ?ys = Inr zs"
      "zs = foldl swap_positions ?ys (map (\<lambda>t. rnd (Suc t)) [0..<k])"
      "even (inversions zs) \<longleftrightarrow> even (inversions ?ys + k)"
    using Suc.IH[of "\<lambda>t. rnd (Suc t)" ?ys] dy by blast
  have u: "map rnd [0..<Suc k] = rnd 0 # map (\<lambda>t. rnd (Suc t)) [0..<k]"
    by (simp only: upt_conv_Cons[OF zero_less_Suc] list.map map_Suc_upt[symmetric] map_map o_def)
  have l: "swap_loop (Suc k) a rnd xs = Inr zs"
    using d a2 ij z(1) by (simp add: choice2_def swap_entries_def ys)
  have f: "zs = foldl swap_positions xs (map rnd [0..<Suc k])"
    unfolding u using z(2) d by simp
  have p: "even (inversions zs) \<longleftrightarrow> even (inversions xs + Suc k)"
    using z(3) par by auto
  show ?case using l f p by blast
qed

lemma generator_fold_parity:
  assumes "valid_draws sz n rnd"
  shows "\<exists>p. get_shuffle_indices_sized sz n rnd = Inr p
            \<and> p = foldl swap_positions (arange sz) (map rnd [0..<nat n])
            \<and> (even (inversions p) \<longleftrightarrow> even (nat n))"
proof (cases "0 \<le> sz")
  case True
  then have l: "int (length (arange sz)) = sz" by (simp add: length_arange)
  have v: "\<forall>t<nat n. valid_draw sz (rnd t)" using assms by (simp add: valid_draws_all)
  show ?thesis
    using swap_loop_parity[OF v l distinct_arange]
    by (simp add: get_shuffle_indices_sized_def inversions_arange)
next
  case False
  then have "\<not> valid_draw sz (rnd 0)" by (auto simp: valid_draw_def)
  moreover have "0 < nat n \<Longrightarrow> valid_draw sz (rnd 0)"
    using assms unfolding valid_draws_all by blast
  ultimately have "nat n = 0" by (cases "nat n") auto
  then show ?thesis by (simp add: get_shuffle_indices_sized_def inversions_arange)
qed

lemma transposition_odd:
  assumes "a \<noteq> b" and "int a < sz" and "int b < sz"
  shows "odd (inversions (transposition (nat sz) a b))"
proof -
  have sz: "0 \<le> sz" using assms(2) by simp
  have la: "a < length (arange sz)" and lb: "b < length (arange sz)"
    using assms by (simp_all add: length_arange)
  have na: "arange sz ! a = int a" and nb: "arange sz ! b = int b"
    using la lb by (simp_all add: arange_def)
  have "transposition (nat sz) a b = swap_positions (arange sz) (a, b)"
    using sz by (simp add: transposition_def swap_positions_def na nb)
  moreover have "even (inversions (swap_positions (arange sz) (a, b))) \<longleftrightarrow>
                 odd (inversions (arange sz))"
    by (rule swap_parity[OF distinct_arange assms(1) la lb])
  ultimately show ?thesis by (simp add: inversions_arange)
qed

text \<open>
  C9. Each draw is a pair of distinct positions, so each iteration exchanges two entries.
  The sequence returned after \<open>n\<close> iterations is the identity with those \<open>n\<close> exchanges
  applied in turn, and its sign is \<open>(-1)\<close> to the power \<open>n\<close>. For odd \<open>n\<close> it is not the
  identity, and for even \<open>n\<close> it is not the identity with two entries exchanged.
\<close>

theorem generator_parity:
  assumes "valid_draws sz n rnd"
  shows "\<exists>p. get_shuffle_indices_sized sz n rnd = Inr p
            \<and> p = foldl swap_positions (arange sz) (map rnd [0..<nat n])
            \<and> (\<forall>k<nat n. fst (rnd k) \<noteq> snd (rnd k))
            \<and> perm_sign p = (- 1) ^ nat n
            \<and> (odd (nat n) \<longrightarrow> p \<noteq> arange sz)
            \<and> (even (nat n) \<longrightarrow>
                 (\<forall>a b. a \<noteq> b \<and> int a < sz \<and> int b < sz \<longrightarrow> p \<noteq> transposition (nat sz) a b))"
proof -
  from generator_fold_parity[OF assms] obtain p
    where g: "get_shuffle_indices_sized sz n rnd = Inr p"
      and f: "p = foldl swap_positions (arange sz) (map rnd [0..<nat n])"
      and e: "even (inversions p) \<longleftrightarrow> even (nat n)" by blast
  have d: "\<forall>k<nat n. fst (rnd k) \<noteq> snd (rnd k)"
    using assms by (simp add: valid_draws_all valid_draw_def)
  have s: "perm_sign p = (- 1) ^ nat n"
    using e by (simp add: perm_sign_def minus_one_power_iff)
  have o: "odd (nat n) \<longrightarrow> p \<noteq> arange sz"
    using e inversions_arange[of sz] by auto
  have t: "even (nat n) \<longrightarrow>
        (\<forall>a b. a \<noteq> b \<and> int a < sz \<and> int b < sz \<longrightarrow> p \<noteq> transposition (nat sz) a b)"
    using e transposition_odd[of _ _ sz] by auto
  show ?thesis using g f d s o t by blast
qed

theorem generator_parity_witness:
  "valid_draws 4 1 (\<lambda>_. (0, 1))
   \<and> get_shuffle_indices_sized 4 1 (\<lambda>_. (0, 1)) = Inr [1, 0, 2, 3]
   \<and> perm_sign [1, 0, 2, 3] = - 1
   \<and> [1, 0, 2, 3] \<noteq> arange 4"
proof -
  have v: "valid_draws 4 1 (\<lambda>_. (0, 1))"
    by (simp add: valid_draws_def valid_draw_def)
  have e: "get_shuffle_indices_sized 4 1 (\<lambda>_. (0, 1)) = Inr [1, 0, 2, 3]"
    by (simp add: get_shuffle_indices_sized_def arange_def choice2_def swap_entries_def
        numeral_eq_Suc upt_rec)
  show ?thesis using generator_parity[OF v] v e by auto
qed

end
